theory Spec2Isabelle
  imports Main "HOL-Library.Sublist"
begin

section \<open>Python strings and the built-ins the viewer uses\<close>

text \<open>
  A Python \<open>str\<close> is a sequence of Unicode code points and \<open>len\<close> counts code points, so a
  string is modelled as a list of code points. ASCII literals of the source are written
  with \<open>lit\<close>; the line-break glyph of the source is the single code point U+23CE.
\<close>

type_synonym pychar = nat
type_synonym pystr = "pychar list"

definition lit :: "string \<Rightarrow> pystr" where
  "lit s = map of_char s"

definition backslash :: pychar where
  "backslash = 92"

definition glyph :: pystr where
  "glyph = [0x23CE]"

text \<open>\<open>n * s\<close>: the string \<open>s\<close> repeated \<open>n\<close> times.\<close>

definition str_mul :: "nat \<Rightarrow> pystr \<Rightarrow> pystr" where
  "str_mul n s = concat (replicate n s)"

text \<open>
  \<open>xs[start:]\<close>: a negative start counts from the end and is clamped at the front, a
  start beyond the end is clamped at the end.
\<close>

definition slice_from :: "int \<Rightarrow> 'a list \<Rightarrow> 'a list" where
  "slice_from start xs =
     (let n = int (length xs);
          s = (if start < 0 then max (start + n) 0 else min start n)
      in drop (nat s) xs)"

text \<open>\<open>sub in s\<close> on strings: \<open>sub\<close> occurs in \<open>s\<close> as a contiguous substring.\<close>

fun str_in :: "pystr \<Rightarrow> pystr \<Rightarrow> bool" where
  "str_in sub [] = (sub = [])"
| "str_in sub (c # cs) = (prefix sub (c # cs) \<or> str_in sub cs)"

text \<open>
  \<open>s.replace(old, new)\<close>: every non-overlapping occurrence of \<open>old\<close>, found from the left,
  is replaced by \<open>new\<close>; an empty \<open>old\<close> matches before every character and at the end.
\<close>

fun str_replace :: "pystr \<Rightarrow> pystr \<Rightarrow> pystr \<Rightarrow> pystr" where
  "str_replace [] new s = new @ concat (map (\<lambda>c. c # new) s)"
| "str_replace (p # ps) new [] = []"
| "str_replace (p # ps) new (c # cs) =
     (if prefix (p # ps) (c # cs)
      then new @ str_replace (p # ps) new (drop (length (p # ps)) (c # cs))
      else c # str_replace (p # ps) new cs)"

section \<open>The sequence renderer \<open>tokens_to_html\<close>\<close>

definition newline_tokens :: "pystr list" where
  "newline_tokens = [[10], [13], [13, 10], [11], [12]]"

definition ellipsis :: pystr where
  "ellipsis = lit ''<span>...</span>''"

definition placeholder :: pystr where
  "placeholder = lit
     ''CONTEXT NOT LOADED FOR SECURITY REASONS SINCE IT CONTAINS HTML CODE (could contain javascript).''"

text \<open>The test \<open>all([c in newline_tokens for c in token])\<close>: each character, as a
  one-character string, is compared with the entries of \<open>newline_tokens\<close>.\<close>

definition all_newline :: "pystr \<Rightarrow> bool" where
  "all_newline token = list_all (\<lambda>c. [c] \<in> set newline_tokens) token"

text \<open>The bordered inline container both branches of the loop write around a token.\<close>

definition span :: "pystr \<Rightarrow> pystr \<Rightarrow> pystr" where
  \<open>span background_color body =
     lit ''<span style="border: 1px solid #DDD; '' @
     lit ''background-color: '' @ background_color @ lit ''; white-space: pre-wrap;">'' @
     body @ lit ''</span>''\<close>

text \<open>The five replacements of the escaping branch, in the order of the source.\<close>

definition escape :: "pystr \<Rightarrow> pystr" where
  "escape token =
     (let token = str_replace (lit ''$'') (backslash # lit ''$'') token;
          token = str_replace (lit ''&'') (lit ''&amp;'') token;
          token = str_replace (lit ''_'') (backslash # lit ''_'') token;
          token = str_replace (lit ''*'') (backslash # lit ''*'') token;
          token = str_replace (lit ''`'') (backslash # lit ''`'') token
      in token)"

text \<open>What one iteration appends to \<open>html\<close> for a token with the given background.\<close>

definition token_html :: "pystr \<Rightarrow> pystr \<Rightarrow> pystr" where
  "token_html background_color token =
     (if all_newline token then
        (let token_rep = str_mul (length token) glyph;
             brs = str_mul (length token) (lit ''<br>'')
         in span background_color token_rep @ brs)
      else span background_color (escape token))"

definition background :: "nat \<Rightarrow> nat \<Rightarrow> pystr" where
  "background n i = (if int i \<noteq> int n - 1 then lit ''white'' else lit ''#FF9999'')"

text \<open>One iteration of the loop over \<open>enumerate(tokens)\<close>; the state is \<open>(html, txt)\<close> and
  \<open>n\<close> is the length of the (already truncated) token list.\<close>

fun loop_body :: "nat \<Rightarrow> nat \<times> pystr \<Rightarrow> pystr \<times> pystr \<Rightarrow> pystr \<times> pystr" where
  "loop_body n (i, token) (html, txt) =
     (let background_color = background n i;
          txt = txt @ token
      in (html @ token_html background_color token, txt))"

definition tokens_to_html :: "pystr list \<Rightarrow> int \<Rightarrow> pystr" where
  "tokens_to_html tokens max_len =
     (let html = (if int (length tokens) > max_len then ellipsis else []);
          tokens = slice_from (- max_len) tokens;
          (html, txt) = fold (loop_body (length tokens)) (enumerate 0 tokens) (html, [])
      in if str_in (lit ''</'') txt then placeholder else html)"

section \<open>The cluster ranker\<close>

text \<open>
  A Python dictionary keeps its keys in insertion order, and the ranking iterates over
  them, so \<open>cluster_to_tokens\<close> is an association list in insertion order with one entry
  per key.
\<close>

type_synonym 'l cluster_dict = "('l \<times> nat list) list"

text \<open>\<open>d[k].append(i)\<close> on a \<open>defaultdict(list)\<close>: a missing key is added at the end with
  the list \<open>[i]\<close>.\<close>

fun dict_append :: "'l \<Rightarrow> nat \<Rightarrow> 'l cluster_dict \<Rightarrow> 'l cluster_dict" where
  "dict_append k i [] = [(k, [i])]"
| "dict_append k i ((k', v) # d) =
     (if k' = k then (k', v @ [i]) # d else (k', v) # dict_append k i d)"

definition cluster_to_tokens :: "'l list \<Rightarrow> 'l cluster_dict" where
  "cluster_to_tokens labels_list =
     fold (\<lambda>(i, cluster_id) d. dict_append cluster_id i d) (enumerate 0 labels_list) []"

text \<open>\<open>d[k]\<close> on a \<open>defaultdict(list)\<close>: a missing key reads as the empty list.\<close>

definition dict_get :: "'l cluster_dict \<Rightarrow> 'l \<Rightarrow> nat list" where
  "dict_get d k = (case map_of d k of None \<Rightarrow> [] | Some v \<Rightarrow> v)"

text \<open>\<open>sorted(xs, key=key, reverse=True)\<close>: the list is reversed, sorted stably by the key
  in ascending order, and reversed again.\<close>

definition sorted_reverse :: "('a \<Rightarrow> nat) \<Rightarrow> 'a list \<Rightarrow> 'a list" where
  "sorted_reverse key xs = rev (sort_key key (rev xs))"

definition new_index_old_index :: "'l cluster_dict \<Rightarrow> (nat \<times> 'l) list" where
  "new_index_old_index d =
     enumerate 0 (sorted_reverse (\<lambda>k. length (dict_get d k)) (map fst d))"

text \<open>
  The specification names an error \<open>InvalidInput\<close> for the ranker. The source has no
  statement that raises in the grouping and ranking steps, so the ranker always returns
  normally with the rank table and the groups.
\<close>

datatype error = InvalidInput

definition rank :: "'l list \<Rightarrow> error + ((nat \<times> 'l) list \<times> 'l cluster_dict)" where
  "rank labels_list =
     (let d = cluster_to_tokens labels_list in Inr (new_index_old_index d, d))"

section \<open>Reference descriptions used in the statements\<close>

text \<open>
  The markup of a window of tokens, described token by token: a plain cell for every
  token but the last and a highlighted cell for the last one.
\<close>

definition cells :: "pystr list \<Rightarrow> pystr" where
  "cells w =
     (if w = [] then []
      else concat (map (token_html (lit ''white'')) (butlast w)) @
           token_html (lit ''#FF9999'') (last w))"

text \<open>
  The escaping policy, character by character: each of the five characters is replaced
  by its escaped form and every other character is kept.
\<close>

definition escape_char :: "pychar \<Rightarrow> pystr" where
  "escape_char c =
     (if c = of_char CHR ''$'' then backslash # lit ''$''
      else if c = of_char CHR ''&'' then lit ''&amp;''
      else if c = of_char CHR ''_'' then backslash # lit ''_''
      else if c = of_char CHR ''*'' then backslash # lit ''*''
      else if c = of_char CHR ''`'' then backslash # lit ''`''
      else [c])"

text \<open>
  The newline policy in the words of the specification: one glyph per character of the
  token, each glyph inside its own bordered cell, followed by as many line breaks.
\<close>

definition spec_newline_cells :: "pystr \<Rightarrow> pystr \<Rightarrow> pystr" where
  "spec_newline_cells background_color token =
     concat (replicate (length token) (span background_color glyph)) @
     str_mul (length token) (lit ''<br>'')"

section \<open>Properties of the built-ins\<close>

lemma str_in_sublist: "str_in sub s = sublist sub s"
  by (induction s) (auto simp: sublist_Cons_right)

lemma slice_from_last:
  "0 < m \<Longrightarrow> slice_from (- m) xs = drop (length xs - nat m) xs"
  by (auto simp: slice_from_def Let_def max_def nat_diff_distrib'
           intro: arg_cong[where f="\<lambda>n. drop n xs"])

lemma slice_from_all:
  "0 \<le> m \<Longrightarrow> int (length xs) \<le> m \<Longrightarrow> slice_from (- m) xs = xs"
  by (auto simp: slice_from_def Let_def max_def)

lemma str_replace_char:
  "str_replace [p] new s = concat (map (\<lambda>c. if c = p then new else [c]) s)"
  by (induction s) auto

lemma concat_map_concat_map:
  "concat (map g (concat (map f s))) = concat (map (\<lambda>c. concat (map g (f c))) s)"
  by (induction s) simp_all

section \<open>The loop of the renderer\<close>

lemma fold_loop_body:
  "fold (loop_body n) (enumerate k ts) (h, t) =
     (h @ concat (map (\<lambda>(i, tok). token_html (background n i) tok) (enumerate k ts)),
      t @ concat ts)"
  by (induction ts arbitrary: k h t) simp_all

lemma background_white: "Suc i < n \<Longrightarrow> background n i = lit ''white''"
  by (simp add: background_def)

lemma background_last: "background (Suc i) i = lit ''#FF9999''"
  by (simp add: background_def)

lemma cells_white:
  "k + length ts < n \<Longrightarrow>
   map (\<lambda>(i, tok). token_html (background n i) tok) (enumerate k ts) =
   map (token_html (lit ''white'')) ts"
proof (induction ts arbitrary: k)
  case Nil
  then show ?case by simp
next
  case (Cons t ts)
  have "Suc k + length ts < n" using Cons.prems by simp
  from Cons.IH[OF this] show ?case using Cons.prems by (simp add: background_white)
qed

lemma cells_snoc:
  "concat (map (\<lambda>(i, tok). token_html (background (length (ws @ [x])) i) tok)
               (enumerate 0 (ws @ [x]))) =
   concat (map (token_html (lit ''white'')) ws) @ token_html (lit ''#FF9999'') x"
proof -
  have "map (\<lambda>(i, tok). token_html (background (Suc (length ws)) i) tok) (enumerate 0 ws)
        = map (token_html (lit ''white'')) ws"
    by (rule cells_white) simp
  then show ?thesis
    by (simp add: enumerate_append_eq background_last)
qed

lemma loop_cells:
  "concat (map (\<lambda>(i, tok). token_html (background (length w) i) tok) (enumerate 0 w)) = cells w"
proof (cases w rule: rev_cases)
  case Nil
  then show ?thesis by (simp add: cells_def)
next
  case (snoc ws x)
  show ?thesis unfolding snoc cells_def
    by (simp only: cells_snoc butlast_snoc last_snoc snoc_eq_iff_butlast if_False
                   append_is_Nil_conv not_Cons_self2 simp_thms)
qed

lemma tokens_to_html_unfold:
  "tokens_to_html tokens max_len =
     (if sublist (lit ''</'') (concat (slice_from (- max_len) tokens)) then placeholder
      else (if int (length tokens) > max_len then ellipsis else []) @
           cells (slice_from (- max_len) tokens))"
  by (simp add: tokens_to_html_def Let_def fold_loop_body str_in_sublist loop_cells)

lemma escape_concat_map: "escape token = concat (map escape_char token)"
proof -
  have "escape token = concat (map (\<lambda>c. if c = 96 then [92, 96] else [c])
         (concat (map (\<lambda>c. if c = 42 then [92, 42] else [c])
         (concat (map (\<lambda>c. if c = 95 then [92, 95] else [c])
         (concat (map (\<lambda>c. if c = 38 then [38, 97, 109, 112, 59] else [c])
         (concat (map (\<lambda>c. if c = 36 then [92, 36] else [c]) token)))))))))"
    by (simp add: escape_def Let_def lit_def backslash_def str_replace_char)
  also have "\<dots> = concat (map escape_char token)"
    unfolding concat_map_concat_map
    by (rule arg_cong[where f=concat], rule map_cong[OF refl])
       (simp add: escape_char_def lit_def backslash_def)
  finally show ?thesis .
qed

lemma all_newline_iff: "all_newline token \<longleftrightarrow> set token \<subseteq> {10, 13, 11, 12}"
  by (auto simp: all_newline_def newline_tokens_def list_all_iff)

lemma newline_token_no_tag:
  assumes "set token \<subseteq> {10, 13, 11, 12}"
  shows "\<not> sublist (lit ''</'') token"
proof
  assume "sublist (lit ''</'') token"
  then have "set (lit ''</'') \<subseteq> set token" by (rule set_mono_sublist)
  then have "(60::nat) \<in> set token" by (simp add: lit_def)
  with assms show False by auto
qed

lemma token_html_starts: "\<exists>r. token_html bg t = lit ''<span '' @ r"
  by (simp add: token_html_def span_def lit_def Let_def)

lemma cells_starts: "w \<noteq> [] \<Longrightarrow> \<exists>r. cells w = lit ''<span '' @ r"
proof (cases w)
  case Nil
  assume "w \<noteq> []"
  with Nil show ?thesis by simp
next
  case (Cons t ts)
  show ?thesis
  proof (cases ts rule: rev_cases)
    case Nil
    with Cons token_html_starts[of "lit ''#FF9999''" t] show ?thesis
      by (simp add: cells_def)
  next
    case (snoc us u)
    obtain r where "token_html (lit ''white'') t = lit ''<span '' @ r"
      using token_html_starts by blast
    with Cons snoc show ?thesis by (simp add: cells_def butlast_append)
  qed
qed

lemma cells_no_ellipsis: "\<not> prefix ellipsis (cells w)"
proof (cases "w = []")
  case True
  then show ?thesis by (simp add: cells_def ellipsis_def lit_def)
next
  case False
  then obtain r where "cells w = lit ''<span '' @ r" using cells_starts by blast
  then show ?thesis by (simp add: ellipsis_def lit_def)
qed

text \<open>The definitions that evaluate the renderer on a concrete input.\<close>

lemmas render_defs = tokens_to_html_def slice_from_def lit_def placeholder_def ellipsis_def
  token_html_def all_newline_def newline_tokens_def span_def escape_def background_def
  backslash_def glyph_def str_mul_def Let_def

section \<open>Claims about the renderer\<close>

text \<open>
  Claim C1, read as written: a \<open></\<close> anywhere in the full original token sequence, also in
  a token in front of the truncation window, makes the renderer return the placeholder.
  The source assigns \<open>tokens = tokens[-max_len:]\<close> before the loop that builds \<open>txt\<close>, so
  the check sees the window only: for the two tokens \<open></\<close> and \<open>a\<close> with \<open>max_len = 1\<close> the
  raw concatenation contains \<open></\<close>, and the result is the ellipsis marker followed by
  the highlighted cell of \<open>a\<close>, not the placeholder.
\<close>

theorem C1_full_sequence_counterexample:
  "str_in (lit ''</'') (concat [lit ''</'', lit ''a'']) \<and>
   tokens_to_html [lit ''</'', lit ''a''] 1 = ellipsis @ span (lit ''#FF9999'') (lit ''a'') \<and>
   tokens_to_html [lit ''</'', lit ''a''] 1 \<noteq> placeholder"
  by (simp add: render_defs)

text \<open>
  Claim C1, as amended: whenever the raw, unescaped concatenation of the tokens of the
  rendered window \<open>tokens[-max_len:]\<close> contains \<open></\<close> (inside one token or across the
  boundary of two), the renderer returns the fixed placeholder and no markup; for a
  positive \<open>max_len\<close> the window is the last \<open>max_len\<close> tokens.
\<close>

theorem C1_window_check:
  "(concat (slice_from (- max_len) tokens) = ps @ lit ''</'' @ ss \<longrightarrow>
      tokens_to_html tokens max_len = placeholder) \<and>
   (0 < max_len \<longrightarrow>
      slice_from (- max_len) tokens = drop (length tokens - nat max_len) tokens)"
proof (intro conjI impI)
  assume "concat (slice_from (- max_len) tokens) = ps @ lit ''</'' @ ss"
  then have "sublist (lit ''</'') (concat (slice_from (- max_len) tokens))"
    unfolding sublist_def by blast
  then show "tokens_to_html tokens max_len = placeholder"
    by (simp add: tokens_to_html_unfold)
next
  assume "0 < max_len"
  then show "slice_from (- max_len) tokens = drop (length tokens - nat max_len) tokens"
    by (rule slice_from_last)
qed

theorem C1_window_check_witness:
  "concat (slice_from (- 2) [lit ''a'', lit ''b<'', lit ''/c'']) = lit ''b'' @ lit ''</'' @ lit ''c'' \<and>
   tokens_to_html [lit ''a'', lit ''b<'', lit ''/c''] 2 = placeholder \<and>
   (0::int) < 2 \<and>
   slice_from (- 2) [lit ''a'', lit ''b<'', lit ''/c''] = [lit ''b<'', lit ''/c'']"
  using C1_window_check [where max_len = 2 and tokens = "[lit ''a'', lit ''b<'', lit ''/c'']"
                           and ps = "lit ''b''" and ss = "lit ''c''"]
  by (simp add: slice_from_def lit_def)

text \<open>
  Claim C2, read as written: a token of \<open>n\<close> line-break characters gives \<open>n\<close> bordered cells
  with one glyph each, then \<open>n\<close> line breaks. The source writes one bordered cell per
  token, holding all \<open>n\<close> glyphs: the token of two newline characters gives a single cell
  with two glyphs followed by two \<open><br>\<close>, which differs from two cells.
\<close>

theorem C2_own_cell_counterexample:
  "tokens_to_html [[10, 10]] 150 = span (lit ''#FF9999'') (glyph @ glyph) @ lit ''<br><br>'' \<and>
   tokens_to_html [[10, 10]] 150 \<noteq> spec_newline_cells (lit ''#FF9999'') [10, 10]"
  by (simp add: render_defs spec_newline_cells_def)

text \<open>
  Claim C2, as amended: a token all of whose characters are newline (10), carriage return
  (13), vertical tab (11) or form feed (12) is written as one bordered cell that holds one
  glyph per character of the token, followed by one \<open><br>\<close> per character; rendered alone,
  it is the highlighted cell of that form.
\<close>

theorem C2_newline_token:
  "set token \<subseteq> {10, 13, 11, 12} \<longrightarrow>
     token_html bg token =
       span bg (str_mul (length token) glyph) @ str_mul (length token) (lit ''<br>'') \<and>
     (0 < max_len \<longrightarrow>
        tokens_to_html [token] max_len =
          span (lit ''#FF9999'') (str_mul (length token) glyph) @
          str_mul (length token) (lit ''<br>''))"
proof (intro impI conjI)
  assume nl: "set token \<subseteq> {10, 13, 11, 12}"
  then have a: "all_newline token" by (simp add: all_newline_iff)
  then show th: "token_html bg token =
       span bg (str_mul (length token) glyph) @ str_mul (length token) (lit ''<br>'')" for bg
    by (simp add: token_html_def Let_def)
  assume "0 < max_len"
  then have "slice_from (- max_len) [token] = [token]"
    by (intro slice_from_all) simp_all
  moreover have "\<not> sublist (lit ''</'') token" using nl by (rule newline_token_no_tag)
  ultimately show "tokens_to_html [token] max_len =
          span (lit ''#FF9999'') (str_mul (length token) glyph) @
          str_mul (length token) (lit ''<br>'')"
    using \<open>0 < max_len\<close> by (simp add: tokens_to_html_unfold cells_def th)
qed

theorem C2_newline_token_witness:
  "set [10, 10] \<subseteq> {10, 13, 11, 12 :: nat} \<and> (0::int) < 150 \<and>
   token_html (lit ''white'') [10, 10] = span (lit ''white'') (glyph @ glyph) @ lit ''<br><br>'' \<and>
   tokens_to_html [[10, 10]] 150 = span (lit ''#FF9999'') (glyph @ glyph) @ lit ''<br><br>''"
  using C2_newline_token [where token = "[10, 10]" and bg = "lit ''white''" and max_len = 150]
  by (simp add: str_mul_def lit_def)

text \<open>
  The text of the ellipsis marker can occur inside a cell without any truncation: a token
  that spells \<open><span>...\<close> contains no \<open></\<close>, and the closing tag of its own cell completes
  the text of the marker.
\<close>

lemma marker_text_inside_cell:
  "tokens_to_html [lit ''<span>...''] 150 =
     lit ''<span style=\"border: 1px solid #DDD; background-color: #FF9999; white-space: pre-wrap;\">'' @
     ellipsis \<and>
   sublist ellipsis (tokens_to_html [lit ''<span>...''] 150)"
proof -
  have e: "tokens_to_html [lit ''<span>...''] 150 =
     lit ''<span style=\"border: 1px solid #DDD; background-color: #FF9999; white-space: pre-wrap;\">'' @
     ellipsis"
    by (simp add: render_defs)
  show ?thesis unfolding e by (simp add: sublist_append)
qed

text \<open>
  Claim C4, read as written: every token sequence longer than \<open>max_len\<close> gives an output
  that starts with the ellipsis marker. When the window contains \<open></\<close> the output is the
  placeholder instead: two tokens \<open>a\<close> and \<open></\<close> with \<open>max_len = 1\<close> are longer than
  \<open>max_len\<close>, and the output does not start with the marker.
\<close>

theorem C4_ellipsis_counterexample:
  "1 < int (length [lit ''a'', lit ''</'']) \<and>
   \<not> prefix ellipsis (tokens_to_html [lit ''a'', lit ''</''] 1)"
  by (simp add: render_defs)

text \<open>
  Claim C4, as amended: let \<open>max_len\<close> be positive and let the raw concatenation of the
  last \<open>max_len\<close> tokens contain no \<open></\<close>. If there are more than \<open>max_len\<close> tokens, the
  output is the ellipsis marker followed by the cells of exactly the last \<open>max_len\<close>
  tokens. If there are at most \<open>max_len\<close> tokens, the output is the cells of all tokens
  and no ellipsis marker is written in front.
\<close>

theorem C4_truncation:
  assumes "0 < max_len"
    and "\<not> sublist (lit ''</'') (concat (drop (length tokens - nat max_len) tokens))"
  shows "(max_len < int (length tokens) \<longrightarrow>
            tokens_to_html tokens max_len =
              ellipsis @ cells (drop (length tokens - nat max_len) tokens) \<and>
            length (drop (length tokens - nat max_len) tokens) = nat max_len) \<and>
         (int (length tokens) \<le> max_len \<longrightarrow>
            tokens_to_html tokens max_len = cells tokens \<and>
            \<not> prefix ellipsis (tokens_to_html tokens max_len))"
proof -
  have w: "slice_from (- max_len) tokens = drop (length tokens - nat max_len) tokens"
    using assms(1) by (rule slice_from_last)
  have long: "tokens_to_html tokens max_len =
                ellipsis @ cells (drop (length tokens - nat max_len) tokens)"
    if "max_len < int (length tokens)"
    using that assms(2) by (simp add: tokens_to_html_unfold w)
  have len: "length (drop (length tokens - nat max_len) tokens) = nat max_len"
    if "max_len < int (length tokens)"
    using that assms(1) by simp
  have short: "tokens_to_html tokens max_len = cells tokens"
    if "int (length tokens) \<le> max_len"
  proof -
    from that have "length tokens - nat max_len = 0" by simp
    with assms(2) that show ?thesis by (simp add: tokens_to_html_unfold w)
  qed
  show ?thesis using long len short by (simp add: cells_no_ellipsis)
qed

theorem C4_truncation_witness:
  "(0::int) < 2 \<and>
   \<not> sublist (lit ''</'') (concat (drop (length [lit ''a'', lit ''b'', lit ''c''] - nat 2)
                                      [lit ''a'', lit ''b'', lit ''c''])) \<and>
   2 < int (length [lit ''a'', lit ''b'', lit ''c'']) \<and>
   tokens_to_html [lit ''a'', lit ''b'', lit ''c''] 2 = ellipsis @ cells [lit ''b'', lit ''c''] \<and>
   \<not> sublist (lit ''</'') (concat (drop (length [lit ''a''] - nat 2) [lit ''a''])) \<and>
   int (length [lit ''a'']) \<le> 2 \<and>
   tokens_to_html [lit ''a''] 2 = cells [lit ''a''] \<and>
   \<not> prefix ellipsis (tokens_to_html [lit ''a''] 2)"
  using C4_truncation [where max_len = 2 and tokens = "[lit ''a'', lit ''b'', lit ''c'']"]
        C4_truncation [where max_len = 2 and tokens = "[lit ''a'']"]
  by (auto simp add: lit_def sublist_Cons_right)

text \<open>
  Claim C6: a token that is not a newline token is embedded in its cell with every
  occurrence of \<open>$\<close>, \<open>&\<close>, \<open>_\<close>, \<open>*\<close> and backtick replaced by its escaped form (a
  backslash in front, \<open>&amp;\<close> for the ampersand) and every other character unchanged;
  the five successive replacements of the source amount to this one pass over the
  characters. Rendered alone, such a token without \<open></\<close> is the highlighted cell of its
  escaped text.
\<close>

theorem C6_escaping:
  "\<not> all_newline token \<longrightarrow>
     token_html bg token = span bg (concat (map escape_char token)) \<and>
     (0 < max_len \<and> \<not> sublist (lit ''</'') token \<longrightarrow>
        tokens_to_html [token] max_len = span (lit ''#FF9999'') (concat (map escape_char token)))"
proof (intro impI conjI)
  assume n: "\<not> all_newline token"
  then show th: "token_html bg token = span bg (concat (map escape_char token))" for bg
    by (simp add: token_html_def escape_concat_map)
  assume a: "0 < max_len \<and> \<not> sublist (lit ''</'') token"
  then have "slice_from (- max_len) [token] = [token]"
    by (intro slice_from_all) simp_all
  with a show "tokens_to_html [token] max_len =
                 span (lit ''#FF9999'') (concat (map escape_char token))"
    by (simp add: tokens_to_html_unfold cells_def th)
qed

theorem C6_escaping_witness:
  "\<not> all_newline (lit ''A_B*C'') \<and> (0::int) < 150 \<and> \<not> sublist (lit ''</'') (lit ''A_B*C'') \<and>
   token_html (lit ''white'') (lit ''A_B*C'') =
     span (lit ''white'') (lit ''A'' @ backslash # lit ''_B'' @ backslash # lit ''*C'') \<and>
   tokens_to_html [lit ''A_B*C''] 150 =
     span (lit ''#FF9999'') (lit ''A'' @ backslash # lit ''_B'' @ backslash # lit ''*C'') \<and>
   \<not> all_newline (lit ''$$'') \<and>
   token_html (lit ''white'') (lit ''$$'') =
     span (lit ''white'') (backslash # lit ''$'' @ backslash # lit ''$'')"
  using C6_escaping [where token = "lit ''A_B*C''" and bg = "lit ''white''" and max_len = 150]
        C6_escaping [where token = "lit ''$$''" and bg = "lit ''white''" and max_len = 150]
  by (simp add: lit_def all_newline_def newline_tokens_def escape_char_def backslash_def
                sublist_Cons_right)

text \<open>
  Claim C8: when markup is produced for a non-empty window (the possibly truncated
  sequence), every token but the last is written with the background \<open>white\<close> and the last
  token with the background \<open>#FF9999\<close>, and the two backgrounds give different cells for the
  same token. For the two tokens \<open>hi\<close> and \<open>there\<close> with \<open>max_len = 150\<close> the output is two
  bordered cells, the plain one of \<open>hi\<close> and the highlighted one of \<open>there\<close>, with no
  ellipsis and no escaping.
\<close>

theorem C8_highlight_last:
  assumes "w = slice_from (- max_len) tokens"
    and "w \<noteq> []"
    and "\<not> sublist (lit ''</'') (concat w)"
  shows "tokens_to_html tokens max_len =
           (if max_len < int (length tokens) then ellipsis else []) @
           concat (map (token_html (lit ''white'')) (butlast w)) @
           token_html (lit ''#FF9999'') (last w) \<and>
         token_html (lit ''white'') t \<noteq> token_html (lit ''#FF9999'') t"
proof
  show "tokens_to_html tokens max_len =
           (if max_len < int (length tokens) then ellipsis else []) @
           concat (map (token_html (lit ''white'')) (butlast w)) @
           token_html (lit ''#FF9999'') (last w)"
    using assms by (simp add: tokens_to_html_unfold cells_def)
  show "token_html (lit ''white'') t \<noteq> token_html (lit ''#FF9999'') t"
    by (simp add: token_html_def span_def lit_def Let_def)
qed

theorem C8_highlight_last_witness:
  "[lit ''hi'', lit ''there''] = slice_from (- 150) [lit ''hi'', lit ''there''] \<and>
   [lit ''hi'', lit ''there''] \<noteq> [] \<and>
   \<not> sublist (lit ''</'') (concat [lit ''hi'', lit ''there'']) \<and>
   tokens_to_html [lit ''hi'', lit ''there''] 150 =
     span (lit ''white'') (lit ''hi'') @ span (lit ''#FF9999'') (lit ''there'') \<and>
   token_html (lit ''white'') (lit ''there'') \<noteq> token_html (lit ''#FF9999'') (lit ''there'')"
  using C8_highlight_last [where w = "[lit ''hi'', lit ''there'']" and max_len = 150
                             and tokens = "[lit ''hi'', lit ''there'']" and t = "lit ''there''"]
  by (simp add: render_defs sublist_Cons_right)

text \<open>
  Claim C9: for the empty token sequence and a non-negative \<open>max_len\<close> (the contract asks
  for a positive one) the renderer returns the empty string: no cell and no ellipsis
  marker. The renderer is a total function without a failing branch: on every input its
  result is the placeholder, or the cells of the window, or the ellipsis marker followed
  by the cells of the window.
\<close>

theorem C9_empty_sequence:
  "(0 \<le> max_len \<longrightarrow> tokens_to_html [] max_len = []) \<and>
   (tokens_to_html tokens max_len = placeholder \<or>
    tokens_to_html tokens max_len = cells (slice_from (- max_len) tokens) \<or>
    tokens_to_html tokens max_len = ellipsis @ cells (slice_from (- max_len) tokens))"
proof (intro conjI impI)
  assume "0 \<le> max_len"
  then show "tokens_to_html [] max_len = []"
    by (simp add: tokens_to_html_unfold slice_from_def cells_def lit_def)
next
  show "tokens_to_html tokens max_len = placeholder \<or>
    tokens_to_html tokens max_len = cells (slice_from (- max_len) tokens) \<or>
    tokens_to_html tokens max_len = ellipsis @ cells (slice_from (- max_len) tokens)"
    by (simp add: tokens_to_html_unfold)
qed

theorem C9_empty_sequence_witness:
  "(0::int) \<le> 150 \<and> tokens_to_html [] 150 = []"
  using C9_empty_sequence [where max_len = 150] by simp

text \<open>
  Claim C10: the empty string passes the test for a newline token, since the test asks
  something of every character and there is none. An iteration of the loop on an empty
  token appends one bordered cell with an empty body (no glyph), no \<open><br>\<close> after it, and
  leaves \<open>txt\<close> as it is; the escaping branch is not taken. Rendered alone, the empty
  token gives the highlighted empty cell.
\<close>

theorem C10_empty_token:
  "all_newline [] \<and>
   loop_body n (i, []) (html, txt) = (html @ span (background n i) [], txt) \<and>
   (0 < max_len \<longrightarrow> tokens_to_html [[]] max_len = span (lit ''#FF9999'') [])"
proof (intro conjI impI)
  show "all_newline []" by (simp add: all_newline_def)
  show "loop_body n (i, []) (html, txt) = (html @ span (background n i) [], txt)"
    by (simp add: token_html_def all_newline_def str_mul_def)
  assume "0 < max_len"
  then have "slice_from (- max_len) [[]::pystr] = [[]]"
    by (intro slice_from_all) simp_all
  then show "tokens_to_html [[]] max_len = span (lit ''#FF9999'') []"
    using \<open>0 < max_len\<close>
    by (simp add: tokens_to_html_unfold cells_def token_html_def all_newline_def str_mul_def
                  lit_def sublist_Cons_right)
qed

theorem C10_empty_token_witness:
  "(0::int) < 150 \<and> tokens_to_html [[]] 150 = span (lit ''#FF9999'') []"
  using C10_empty_token [where max_len = 150] by simp

section \<open>Properties of the ranker\<close>

lemma keys_dict_append:
  "map fst (dict_append k i d) = (if k \<in> fst ` set d then map fst d else map fst d @ [k])"
  by (induction d) force+

lemma dict_get_dict_append:
  "dict_get (dict_append k i d) l = (if l = k then dict_get d l @ [i] else dict_get d l)"
  by (induction d) (auto simp: dict_get_def)

lemma cluster_to_tokens_snoc:
  "cluster_to_tokens (ls @ [x]) = dict_append x (length ls) (cluster_to_tokens ls)"
  by (simp add: cluster_to_tokens_def enumerate_append_eq)

lemma keys_cluster_to_tokens:
  "map fst (cluster_to_tokens ls) = rev (remdups (rev ls))"
proof (induction ls rule: rev_induct)
  case Nil
  then show ?case by (simp add: cluster_to_tokens_def)
next
  case (snoc x xs)
  have "fst ` set (cluster_to_tokens xs) = set xs"
    using snoc by (metis list.set_map set_remdups set_rev)
  then show ?case using snoc
    by (simp add: cluster_to_tokens_snoc keys_dict_append)
qed

lemma dict_get_cluster_to_tokens:
  "dict_get (cluster_to_tokens ls) l = filter (\<lambda>i. ls ! i = l) [0..<length ls]"
proof (induction ls arbitrary: l rule: rev_induct)
  case Nil
  then show ?case by (simp add: cluster_to_tokens_def dict_get_def)
next
  case (snoc x xs)
  have "filter (\<lambda>i. (xs @ [x]) ! i = l) [0..<length xs] = filter (\<lambda>i. xs ! i = l) [0..<length xs]"
    by (rule filter_cong) (auto simp: nth_append)
  then show ?case using snoc[of l]
    by (auto simp add: cluster_to_tokens_snoc dict_get_dict_append)
qed

lemma sorted_reverse_stable:
  "filter (\<lambda>y. key y = k) (sorted_reverse key xs) = filter (\<lambda>y. key y = k) xs"
  by (simp add: sorted_reverse_def rev_filter[symmetric] sort_key_stable)

lemma set_sorted_reverse: "set (sorted_reverse key xs) = set xs"
  by (simp add: sorted_reverse_def)

lemma distinct_sorted_reverse: "distinct (sorted_reverse key xs) = distinct xs"
  by (simp add: sorted_reverse_def)

lemma length_sorted_reverse: "length (sorted_reverse key xs) = length xs"
  by (simp add: sorted_reverse_def)

lemma sorted_reverse_descending:
  "i \<le> j \<Longrightarrow> j < length xs \<Longrightarrow>
   key (sorted_reverse key xs ! j) \<le> key (sorted_reverse key xs ! i)"
proof -
  assume ij: "i \<le> j" "j < length xs"
  have "sorted (map key (sort_key key (rev xs)))" by (rule sorted_sort_key)
  then have "sorted (rev (map key (sorted_reverse key xs)))"
    by (simp add: sorted_reverse_def rev_map)
  then have "map key (sorted_reverse key xs) ! j \<le> map key (sorted_reverse key xs) ! i"
    using ij by (simp add: sorted_rev_iff_nth_mono length_sorted_reverse)
  then show ?thesis using ij by (simp add: length_sorted_reverse)
qed

lemma remdups_append_filter:
  "remdups (xs @ ys) = filter (\<lambda>x. x \<notin> set ys) (remdups xs) @ remdups ys"
  by (induction xs) auto

lemma first_seen_order:
  assumes "ls = pre @ a # post" "a \<notin> set pre" "b \<notin> set pre" "b \<in> set post" "a \<noteq> b"
  shows "\<exists>us vs. rev (remdups (rev ls)) = us @ a # vs \<and> b \<in> set vs"
proof -
  let ?vs = "rev (filter (\<lambda>x. x \<notin> set (a # rev pre)) (remdups (rev post)))"
  have "remdups (rev ls) =
          filter (\<lambda>x. x \<notin> set (a # rev pre)) (remdups (rev post)) @ a # remdups (rev pre)"
    using assms(1,2) by (simp add: remdups_append_filter[of "rev post" "a # rev pre"])
  then have "rev (remdups (rev ls)) = rev (remdups (rev pre)) @ a # ?vs"
    by simp
  moreover have "b \<in> set ?vs" using assms(3,4,5) by simp
  ultimately show ?thesis by blast
qed

lemma filter_reflects_order:
  "filter P xs = us @ a # vs \<Longrightarrow> b \<in> set vs \<Longrightarrow>
   \<exists>us' vs'. xs = us' @ a # vs' \<and> b \<in> set vs'"
proof (induction xs arbitrary: us)
  case Nil
  then show ?case by simp
next
  case (Cons x xs)
  show ?case
  proof (cases "P x")
    case False
    with Cons.prems have "filter P xs = us @ a # vs" by simp
    from Cons.IH[OF this Cons.prems(2)] obtain us' vs'
      where "xs = us' @ a # vs'" "b \<in> set vs'" by blast
    then have "x # xs = (x # us') @ a # vs' \<and> b \<in> set vs'" by simp
    then show ?thesis by blast
  next
    case True
    show ?thesis
    proof (cases us)
      case Nil
      with True Cons.prems have "x = a" "filter P xs = vs" by simp_all
      with Cons.prems(2) have "x # xs = [] @ a # xs \<and> b \<in> set xs" by auto
      then show ?thesis by blast
    next
      case (Cons u us'')
      with True Cons.prems have "filter P xs = us'' @ a # vs" by simp
      from Cons.IH[OF this Cons.prems(2)] obtain us' vs'
        where "xs = us' @ a # vs'" "b \<in> set vs'" by blast
      then have "x # xs = (x # us') @ a # vs' \<and> b \<in> set vs'" by simp
      then show ?thesis by blast
    qed
  qed
qed

lemma sorted_reverse_keeps_ties:
  assumes "xs = us @ a # vs" "b \<in> set vs" "key a = key b"
  shows "\<exists>us' vs'. sorted_reverse key xs = us' @ a # vs' \<and> b \<in> set vs'"
proof -
  let ?P = "\<lambda>y. key y = key a"
  have "filter ?P (sorted_reverse key xs) = filter ?P us @ a # filter ?P vs"
    using assms(1) by (simp add: sorted_reverse_stable)
  moreover have "b \<in> set (filter ?P vs)" using assms(2,3) by simp
  ultimately show ?thesis by (rule filter_reflects_order)
qed

lemma enumerate_positions:
  assumes "S = us @ a # vs" "b \<in> set vs"
  shows "\<exists>i j. i < j \<and> j < length (enumerate 0 S) \<and>
               enumerate 0 S ! i = (i, a) \<and> enumerate 0 S ! j = (j, b)"
proof -
  from assms(2) obtain n where n: "n < length vs" "vs ! n = b"
    by (auto simp: in_set_conv_nth)
  let ?i = "length us" and ?j = "Suc (length us + n)"
  have "?i < ?j" by simp
  moreover have "?j < length (enumerate 0 S)" using n assms(1) by simp
  moreover have "enumerate 0 S ! ?i = (?i, a)"
    using assms(1) by (simp add: nth_enumerate_eq)
  moreover have "enumerate 0 S ! ?j = (?j, b)"
    using assms(1) n by (simp add: nth_enumerate_eq nth_append)
  ultimately show ?thesis by blast
qed

lemma map_of_enumerate_nth:
  "r < length S \<Longrightarrow> map_of (enumerate 0 S) r = Some (S ! r)"
  using map_of_zip_nth[of "[0..<length S]" S r] by (simp add: enumerate_eq_zip)

lemma rank_unfold:
  "rank ls = Inr (table, d) \<longleftrightarrow>
     d = cluster_to_tokens ls \<and>
     table = enumerate 0 (sorted_reverse (\<lambda>k. length (dict_get d k)) (rev (remdups (rev ls))))"
  by (auto simp: rank_def Let_def new_index_old_index_def keys_cluster_to_tokens)

lemma group_nonempty:
  assumes "(l, g) \<in> set (cluster_to_tokens ls)"
  shows "g \<noteq> []"
proof -
  have dist: "distinct (map fst (cluster_to_tokens ls))"
    by (simp add: keys_cluster_to_tokens)
  then have "map_of (cluster_to_tokens ls) l = Some g" using assms by simp
  then have g: "g = filter (\<lambda>i. ls ! i = l) [0..<length ls]"
    using dict_get_cluster_to_tokens[of ls l] by (simp add: dict_get_def)
  have "l \<in> set (map fst (cluster_to_tokens ls))" using assms by force
  then have "l \<in> set ls" by (simp add: keys_cluster_to_tokens)
  then obtain i where "i < length ls" "ls ! i = l" by (auto simp: in_set_conv_nth)
  then have "\<exists>i \<in> set [0..<length ls]. ls ! i = l" by auto
  then have "filter (\<lambda>i. ls ! i = l) [0..<length ls] \<noteq> []"
    by (simp only: filter_empty_conv) blast
  with g show ?thesis by simp
qed

lemma rank_Nil: "rank ([] :: 'l list) = Inr ([], [])"
  by (simp add: rank_def cluster_to_tokens_def new_index_old_index_def sorted_reverse_def Let_def)

section \<open>Claims about the ranker\<close>

text \<open>
  Claim C3, read as written: on the empty assignment the ranker fails with \<open>InvalidInput\<close>
  and returns no normal result. The source has no guard: the loop over an empty label
  list leaves the dictionary empty, and sorting and numbering no keys give the empty
  table, so the ranker returns normally.
\<close>

theorem C3_rank_empty_counterexample:
  "rank ([] :: nat list) = Inr ([], []) \<and> rank ([] :: nat list) \<noteq> Inl InvalidInput"
  by (simp add: rank_Nil)

text \<open>
  Claim C3, as amended: the ranker has no error result. On the empty assignment it returns
  normally with the empty rank table and the empty grouping, and on every assignment it
  returns a table and a grouping in which no group is empty.
\<close>

theorem C3_rank_total:
  "rank ([] :: 'l list) = Inr ([], []) \<and>
   (\<exists>table d. rank ls = Inr (table, d) \<and> (\<forall>(l, g) \<in> set d. g \<noteq> []))"
proof
  show "rank ([] :: 'l list) = Inr ([], [])" by (rule rank_Nil)
  have "\<forall>(l, g) \<in> set (cluster_to_tokens ls). g \<noteq> []"
  proof (intro ballI)
    fix p assume p: "p \<in> set (cluster_to_tokens ls)"
    obtain l g where lg: "p = (l, g)" by (cases p)
    with p have "g \<noteq> []" by (simp add: group_nonempty[of l g ls])
    with lg show "case p of (l, g) \<Rightarrow> g \<noteq> []" by simp
  qed
  then show "\<exists>table d. rank ls = Inr (table, d) \<and> (\<forall>(l, g) \<in> set d. g \<noteq> [])"
    unfolding rank_def Let_def by (intro exI conjI) (rule refl)
qed

theorem C3_rank_total_witness:
  "rank ([] :: string list) = Inr ([], []) \<and>
   rank [''a'', ''b'', ''a''] = Inr ([(0, ''a''), (1, ''b'')], [(''a'', [0, 2]), (''b'', [1])]) \<and>
   [0, 2 :: nat] \<noteq> [] \<and> [1 :: nat] \<noteq> []"
proof -
  have r: "rank [''a'', ''b'', ''a''] =
             Inr ([(0, ''a''), (1, ''b'')], [(''a'', [0, 2]), (''b'', [1])])"
    by (simp add: rank_def cluster_to_tokens_def new_index_old_index_def sorted_reverse_def
                  dict_get_def Let_def)
  from C3_rank_total [where ls = "[''a'', ''b'', ''a'']"] show ?thesis
    by (simp add: r)
qed

text \<open>
  Claim C5: for a non-empty assignment \<open>ls\<close> with \<open>K\<close> distinct labels, the rank table has
  exactly the ranks \<open>0..K-1\<close> in order, its labels are distinct and are exactly the labels
  present, and looking a rank up is a bijection from \<open>{0..<K}\<close> onto the labels. The group of
  a label is the list of the positions that carry it, so its size is the number of samples
  with that label; group sizes do not increase along the ranks, and the label of rank 0
  has a group at least as large as that of every label. For the assignment
  \<open>{0:a, 1:b, 2:a}\<close> the groups are \<open>{a:[0,2], b:[1]}\<close> and the table is \<open>{0:a, 1:b}\<close>.
\<close>

theorem C5_rank_table:
  assumes "ls \<noteq> []" and "rank ls = Inr (table, d)"
  shows "map fst table = [0..<card (set ls)] \<and>
         distinct (map snd table) \<and> set (map snd table) = set ls \<and>
         bij_betw (\<lambda>r. the (map_of table r)) {0..<card (set ls)} (set ls) \<and>
         dict_get d l = filter (\<lambda>i. ls ! i = l) [0..<length ls] \<and>
         (i \<le> j \<and> j < card (set ls) \<longrightarrow>
            length (dict_get d (snd (table ! j))) \<le> length (dict_get d (snd (table ! i)))) \<and>
         (l \<in> set ls \<longrightarrow>
            map_of table 0 = Some (snd (table ! 0)) \<and>
            length (dict_get d l) \<le> length (dict_get d (snd (table ! 0))))"
proof -
  let ?key = "\<lambda>k. length (dict_get d k)"
  let ?S = "sorted_reverse ?key (rev (remdups (rev ls)))"
  let ?K = "card (set ls)"
  from assms(2) have d: "d = cluster_to_tokens ls" and table: "table = enumerate 0 ?S"
    by (simp_all add: rank_unfold)
  have len: "length ?S = ?K"
    using length_remdups_card_conv[of "rev ls"] by (simp add: length_sorted_reverse)
  have dist: "distinct ?S" by (simp add: distinct_sorted_reverse)
  have set: "set ?S = set ls" by (simp add: set_sorted_reverse)
  have snd: "map snd table = ?S" by (simp add: table)
  have nth: "snd (table ! r) = ?S ! r" if "r < ?K" for r
    using that len by (simp add: table nth_enumerate_eq)
  have look: "map_of table r = Some (?S ! r)" if "r < ?K" for r
    using that len unfolding table by (intro map_of_enumerate_nth) simp
  have c1: "map fst table = [0..<?K]"
    using len by (simp add: table)
  have c2: "distinct (map snd table)" "set (map snd table) = set ls"
    using dist set by (simp_all only: snd)
  have "bij_betw ((!) ?S) {0..<?K} (set ls)"
    by (rule bij_betw_nth[OF dist]) (auto simp: len set)
  moreover have "\<And>r. r \<in> {0..<?K} \<Longrightarrow> the (map_of table r) = ?S ! r"
    by (simp add: look)
  then have "bij_betw (\<lambda>r. the (map_of table r)) {0..<?K} (set ls) =
                  bij_betw ((!) ?S) {0..<?K} (set ls)"
    by (rule bij_betw_cong)
  ultimately have c3: "bij_betw (\<lambda>r. the (map_of table r)) {0..<?K} (set ls)"
    by (simp only:)
  have c4: "dict_get d l = filter (\<lambda>i. ls ! i = l) [0..<length ls]"
    by (simp add: d dict_get_cluster_to_tokens)
  have desc: "?key (?S ! j') \<le> ?key (?S ! i')" if "i' \<le> j'" "j' < ?K" for i' j'
    using sorted_reverse_descending[of i' j' "rev (remdups (rev ls))" ?key] that len
    by (simp add: length_sorted_reverse)
  have c5: "i \<le> j \<and> j < ?K \<longrightarrow> ?key (snd (table ! j)) \<le> ?key (snd (table ! i))"
    using desc[of i j] nth[of i] nth[of j] by auto
  have pos: "0 < ?K" using assms(1) by (simp add: card_gt_0_iff)
  have c6: "l \<in> set ls \<longrightarrow> map_of table 0 = Some (snd (table ! 0)) \<and>
              ?key l \<le> ?key (snd (table ! 0))"
  proof
    assume "l \<in> set ls"
    then have "l \<in> set ?S" by (simp only: set)
    then obtain r where r: "r < ?K" "?S ! r = l" using len by (auto simp: in_set_conv_nth)
    from desc[of 0 r] r have "?key l \<le> ?key (?S ! 0)" by simp
    then show "map_of table 0 = Some (snd (table ! 0)) \<and> ?key l \<le> ?key (snd (table ! 0))"
      using look[OF pos] nth[OF pos] by simp
  qed
  show ?thesis by (intro conjI c1 c2 c3 c4 c5 c6)
qed

theorem C5_rank_table_witness:
  "[''a'', ''b'', ''a''] \<noteq> [] \<and>
   rank [''a'', ''b'', ''a''] = Inr ([(0, ''a''), (1, ''b'')], [(''a'', [0, 2]), (''b'', [1])]) \<and>
   map fst [(0::nat, ''a''), (1, ''b'')] = [0..<card (set [''a'', ''b'', ''a''])] \<and>
   bij_betw (\<lambda>r. the (map_of [(0::nat, ''a''), (1, ''b'')] r)) {0..<card (set [''a'', ''b'', ''a''])}
     (set [''a'', ''b'', ''a'']) \<and>
   (0::nat) \<le> 1 \<and> 1 < card (set [''a'', ''b'', ''a'']) \<and> ''b'' \<in> set [''a'', ''b'', ''a''] \<and>
   length (dict_get [(''a'', [0, 2]), (''b'', [1])] ''b'')
     \<le> length (dict_get [(''a'', [0, 2]), (''b'', [1])] ''a'')"
proof -
  have r: "rank [''a'', ''b'', ''a''] = Inr ([(0, ''a''), (1, ''b'')], [(''a'', [0, 2]), (''b'', [1])])"
    by (simp add: rank_def cluster_to_tokens_def new_index_old_index_def sorted_reverse_def
                  dict_get_def Let_def)
  have n: "[''a'', ''b'', ''a''] \<noteq> []" by simp
  have k: "card {''a'', ''b'', ''a''} = 2" by (simp add: card_insert_if)
  show ?thesis
    using C5_rank_table [OF n r, where i = 0 and j = 1 and l = "''b''"] r
    by (simp add: k dict_get_def)
qed

text \<open>
  Claim C7: if the label \<open>a\<close> is first seen in the assignment before the label \<open>b\<close> is, and
  their groups have the same size, then \<open>a\<close> gets a smaller rank than \<open>b\<close>. More generally
  the labels of any one group size \<open>n\<close> appear in the table in first-seen order. The ranker
  is a function of the assignment: running it again on the same assignment gives the
  same table and groups.
\<close>

theorem C7_tie_break:
  assumes "rank ls = Inr (table, d)"
    and "ls = pre @ a # post" and "a \<notin> set pre" and "b \<notin> set pre" and "b \<in> set post"
    and "a \<noteq> b"
    and "length (dict_get d a) = length (dict_get d b)"
  shows "(\<exists>i j. i < j \<and> j < length table \<and> table ! i = (i, a) \<and> table ! j = (j, b)) \<and>
         filter (\<lambda>l. length (dict_get d l) = n) (map snd table) =
           filter (\<lambda>l. length (dict_get d l) = n) (rev (remdups (rev ls))) \<and>
         (ls' = ls \<longrightarrow> rank ls' = Inr (table, d))"
proof -
  let ?key = "\<lambda>k. length (dict_get d k)"
  let ?S = "sorted_reverse ?key (rev (remdups (rev ls)))"
  from assms(1) have table: "table = enumerate 0 ?S" by (simp add: rank_unfold)
  from first_seen_order[OF assms(2-6)] obtain us vs
    where "rev (remdups (rev ls)) = us @ a # vs" "b \<in> set vs" by blast
  from sorted_reverse_keeps_ties[OF this, of ?key] assms(7) obtain us' vs'
    where "?S = us' @ a # vs'" "b \<in> set vs'" by blast
  from enumerate_positions[OF this]
  have c1: "\<exists>i j. i < j \<and> j < length table \<and> table ! i = (i, a) \<and> table ! j = (j, b)"
    by (simp only: table)
  have c2: "filter (\<lambda>l. ?key l = n) (map snd table) =
            filter (\<lambda>l. ?key l = n) (rev (remdups (rev ls)))"
    by (simp add: table sorted_reverse_stable)
  show ?thesis using c1 c2 assms(1) by simp
qed

theorem C7_tie_break_witness:
  "rank [3, 5, 5, 3, 7 :: nat] =
     Inr ([(0, 3), (1, 5), (2, 7)], [(3, [0, 3]), (5, [1, 2]), (7, [4])]) \<and>
   [3, 5, 5, 3, 7 :: nat] = [] @ 3 # [5, 5, 3, 7] \<and>
   length (dict_get [(3 :: nat, [0, 3]), (5, [1, 2]), (7, [4])] 3) =
   length (dict_get [(3 :: nat, [0, 3]), (5, [1, 2]), (7, [4])] 5) \<and>
   (\<exists>i j. i < j \<and> j < length [(0 :: nat, 3 :: nat), (1, 5), (2, 7)] \<and>
          [(0 :: nat, 3 :: nat), (1, 5), (2, 7)] ! i = (i, 3) \<and>
          [(0 :: nat, 3 :: nat), (1, 5), (2, 7)] ! j = (j, 5))"
proof -
  have r: "rank [3, 5, 5, 3, 7 :: nat] =
     Inr ([(0, 3), (1, 5), (2, 7)], [(3, [0, 3]), (5, [1, 2]), (7, [4])])"
    by (simp add: rank_def cluster_to_tokens_def new_index_old_index_def sorted_reverse_def
                  dict_get_def Let_def)
  have e: "length (dict_get [(3 :: nat, [0, 3]), (5, [1, 2]), (7, [4])] 3) =
           length (dict_get [(3 :: nat, [0, 3]), (5, [1, 2]), (7, [4])] 5)"
    by (simp add: dict_get_def)
  have s: "[3, 5, 5, 3, 7 :: nat] = [] @ 3 # [5, 5, 3, 7]" by simp
  from C7_tie_break [OF r s _ _ _ _ e, where n = 2 and ls' = "[3, 5, 5, 3, 7]"]
  show ?thesis using r e by simp
qed

end
